theory Spec2Isabelle
  imports Main
begin

section \<open>Finding the file with the most non-empty lines\<close>

text \<open>
  A shallow embedding of \<^verbatim>\<open>find-max-file-in-directory.js\<close>, \<^verbatim>\<open>lib/load-files.js\<close> and the
  \<^verbatim>\<open>countNonEmptyLines\<close> function printed in \<^verbatim>\<open>article.md\<close>.

  Two modules the program requires are not among the sources, \<^verbatim>\<open>lib/index-of-max.js\<close> and
  \<^verbatim>\<open>map-async\<close>; both are modelled from their contracts in the specification and marked so.
  The run of a program is its effects in order together with the way it ends; the order in
  which the concurrent reads complete is a parameter of the run.

  A JavaScript string is modelled as a \<^typ>\<open>string\<close>, one \<^typ>\<open>char\<close> per code unit. The only
  operations performed on file contents are splitting at the newline code unit and
  testing a segment for emptiness, which do not depend on the width of a code unit.
\<close>

subsection \<open>Counting non-empty lines\<close>

definition newline :: char where
  "newline = CHR 0x0A"

definition carriage_return :: char where
  "carriage_return = CHR 0x0D"

text \<open>
  \<^verbatim>\<open>content.split('\n')\<close>: a left-to-right scan that closes the current segment at every
  separator. The segment under construction is \<open>cur\<close>; the end of the text closes the
  last segment, so the result is never the empty array and \<^verbatim>\<open>''.split('\n')\<close> is \<^verbatim>\<open>['']\<close>.
\<close>

fun split_from :: "char \<Rightarrow> string \<Rightarrow> string \<Rightarrow> string list" where
  "split_from sep cur [] = [cur]"
| "split_from sep cur (c # cs) =
     (if c = sep then cur # split_from sep [] cs else split_from sep (cur @ [c]) cs)"

definition js_split :: "char \<Rightarrow> string \<Rightarrow> string list" where
  "js_split sep s = split_from sep [] s"

text \<open>\<^verbatim>\<open>Boolean(s)\<close> for a string \<open>s\<close>: only the empty string is falsy.\<close>

definition Boolean :: "string \<Rightarrow> bool" where
  "Boolean s = (s \<noteq> [])"

text \<open>
  \<^verbatim>\<open>
  function countNonEmptyLines (content) {
    return content
      .split('\n')
      .filter(Boolean)
      .length;
  }
  \<close>
\<close>

definition countNonEmptyLines :: "string \<Rightarrow> nat" where
  "countNonEmptyLines content = length (filter Boolean (js_split newline content))"

text \<open>
  The specification's view of a text: a non-empty sequence of segments, none of which
  contains the separator, written one after the other with a separator between
  neighbours.
\<close>

fun join_with :: "char \<Rightarrow> string list \<Rightarrow> string" where
  "join_with sep [] = []"
| "join_with sep [seg] = seg"
| "join_with sep (seg # segs) = seg @ sep # join_with sep segs"

definition segments_of :: "string \<Rightarrow> string list \<Rightarrow> bool" where
  "segments_of s segs =
     (segs \<noteq> [] \<and> list_all (\<lambda>seg. newline \<notin> set seg) segs \<and> join_with newline segs = s)"

subsection \<open>Index of the maximum\<close>

datatype exn = EmptySequence

text \<open>
  Modelled from the spec: \<^verbatim>\<open>lib/index-of-max.js\<close> (\<^verbatim>\<open>indexOfMax\<close>) is required by
  \<^verbatim>\<open>find-max-file-in-directory.js\<close> but is not among the sources. The specification
  (section 4.3) gives its contract: on a non-empty sequence of numbers the output is the
  zero-based position of the element with the greatest value, the lowest index winning
  among equal maxima; on the empty sequence it produces an error.
\<close>

fun first_index :: "'a \<Rightarrow> 'a list \<Rightarrow> nat" where
  "first_index v [] = 0"
| "first_index v (x # xs) = (if x = v then 0 else Suc (first_index v xs))"

definition indexOfMax :: "'a::linorder list \<Rightarrow> exn + nat" where
  "indexOfMax xs =
     (if xs = [] then Inl EmptySequence else Inr (first_index (Max (set xs)) xs))"

subsection \<open>Asynchronous map\<close>

text \<open>
  Modelled from the spec: \<^verbatim>\<open>map-async\<close>, the module \<^verbatim>\<open>lib/load-files.js\<close> delegates to, is
  not among the sources. The specification (sections 4.1 and 5) gives its contract: the
  operation is started on every item; each result is written to the slot reserved for
  the position of its item; the results are delivered once every slot is filled; the
  first failure observed is delivered at once, and whatever completes after a delivery
  is dropped; on the empty sequence the empty result is delivered immediately.

  Everything runs on one thread of control, so a run is determined by the order in which
  the started operations complete: \<open>sched\<close> lists the positions of the items in completion
  order. \<open>func item\<close> is what the operation started on \<open>item\<close> completes with. \<open>delivered\<close>
  is the call of the callback, \<open>None\<close> while it has not been called.
\<close>

record ('e, 'b) join_state =
  slots :: "'b option list"
  delivered :: "('e + 'b list) option"

definition join_start :: "nat \<Rightarrow> ('e, 'b) join_state" where
  "join_start n =
     \<lparr>slots = replicate n None, delivered = (if n = 0 then Some (Inr []) else None)\<rparr>"

text \<open>
  The operation on position \<open>i\<close> completes. A position that has no operation in flight
  (out of range, or completed before) has nothing to complete.
\<close>

definition complete ::
  "'a list \<Rightarrow> ('a \<Rightarrow> 'e + 'b) \<Rightarrow> ('e, 'b) join_state \<Rightarrow> nat \<Rightarrow> ('e, 'b) join_state" where
  "complete arr func s i =
     (if delivered s \<noteq> None then s
      else if length arr \<le> i \<or> slots s ! i \<noteq> None then s
      else case func (arr ! i) of
          Inl err \<Rightarrow> s\<lparr>delivered := Some (Inl err)\<rparr>
        | Inr res \<Rightarrow>
            (let filled = (slots s)[i := Some res]
             in s\<lparr>slots := filled, delivered := map_option Inr (those filled)\<rparr>))"

definition mapAsync ::
  "'a list \<Rightarrow> ('a \<Rightarrow> 'e + 'b) \<Rightarrow> nat list \<Rightarrow> ('e + 'b list) option" where
  "mapAsync arr func sched =
     delivered (foldl (complete arr func) (join_start (length arr)) sched)"

subsection \<open>The file system and the effects of a run\<close>

type_synonym path = string

text \<open>
  The collaborators of the program: \<^verbatim>\<open>fs.readdir\<close>, \<^verbatim>\<open>fs.readFile\<close> with the encoding
  \<^verbatim>\<open>'utf8'\<close>, and \<^verbatim>\<open>path.join\<close>. The first two complete with an error (\<open>Inl\<close>) or with a
  value (\<open>Inr\<close>); the error values are opaque.
\<close>

record 'e env =
  fs_readdir :: "path \<Rightarrow> 'e + string list"
  fs_readFile :: "path \<Rightarrow> 'e + string"
  path_join :: "path \<Rightarrow> path \<Rightarrow> path"

text \<open>What a run does besides calling its callback, in the order it does it.\<close>

datatype event =
    ReadDir path
  | LoadFilesCall "path list"
  | ReadFile path
  | IndexOfMaxCall "nat list"

text \<open>The second argument a callback may receive.\<close>

datatype jsval = Null | Undefined | Str string

text \<open>
  How a run ends: the callback is never called, it is called with an error, it is called
  with \<^verbatim>\<open>null\<close> and a value, or an exception escapes before it is called.
\<close>

datatype 'e outcome = Pending | Failed 'e | Succeeded jsval | Threw exn

text \<open>\<^verbatim>\<open>filenames[i]\<close>: reading an array past its end gives \<^verbatim>\<open>undefined\<close>.\<close>

definition js_nth :: "string list \<Rightarrow> nat \<Rightarrow> jsval" where
  "js_nth xs i = (if i < length xs then Str (xs ! i) else Undefined)"

subsection \<open>\<^verbatim>\<open>lib/load-files.js\<close>\<close>

text \<open>
  \<^verbatim>\<open>
  function load (filename, cb) {
    fs.readFile(filename, 'utf8', cb);
  }

  module.exports = function loadFiles (filenames, callback) {
    map(filenames, load, callback);
  };
  \<close>
  One read is issued for every file name, in the order of the file names.
\<close>

definition load :: "'e env \<Rightarrow> path \<Rightarrow> 'e + string" where
  "load env filename = fs_readFile env filename"

definition loadFiles ::
  "'e env \<Rightarrow> nat list \<Rightarrow> path list \<Rightarrow> event list \<times> ('e + string list) option" where
  "loadFiles env sched filenames =
     (LoadFilesCall filenames # map ReadFile filenames, mapAsync filenames (load env) sched)"

subsection \<open>\<^verbatim>\<open>find-max-file-in-directory.js\<close>\<close>

text \<open>
  The callback \<^verbatim>\<open>findMaxFile\<close> hands to \<^verbatim>\<open>loadFiles\<close>:
  \<^verbatim>\<open>
  function (err, results) {
    if (err) { return callback(err); }

    // count non-empty lines
    var lineCounts = results.map(countNonEmptyLines);
    var i = indexOfMax(lineCounts);

    // send back the result
    callback(null, filenames[i]);
  }
  \<close>
\<close>

definition on_loaded :: "path list \<Rightarrow> 'e + string list \<Rightarrow> event list \<times> 'e outcome" where
  "on_loaded filenames r =
     (case r of
        Inl err \<Rightarrow> ([], Failed err)
      | Inr results \<Rightarrow>
          (let lineCounts = map countNonEmptyLines results
           in ([IndexOfMaxCall lineCounts],
               case indexOfMax lineCounts of
                 Inl ex \<Rightarrow> Threw ex
               | Inr i \<Rightarrow> Succeeded (js_nth filenames i))))"

text \<open>
  \<^verbatim>\<open>
  function findMaxFile (filenames, callback) {
    if (!filenames.length) { return callback(null, null); }

    // load all files
    loadFiles(filenames, function (err, results) { ... });
  }
  \<close>
\<close>

definition findMaxFile ::
  "'e env \<Rightarrow> nat list \<Rightarrow> path list \<Rightarrow> event list \<times> 'e outcome" where
  "findMaxFile env sched filenames =
     (if length filenames = 0 then ([], Succeeded Null)
      else case loadFiles env sched filenames of
          (reads, None) \<Rightarrow> (reads, Pending)
        | (reads, Some r) \<Rightarrow>
            (case on_loaded filenames r of (evs, out) \<Rightarrow> (reads @ evs, out)))"

text \<open>
  \<^verbatim>\<open>
  function findMaxFileInDirectory (dir, callback) {
    fs.readdir(dir, function (err, filenames) {
      if (err) { return callback(err); }

      // create a list of file paths
      var prependDir = function (filename) { return path.join(dir, filename); };
      findMaxFile(filenames.map(prependDir), callback);
    });
  }
  \<close>
\<close>

definition findMaxFileInDirectory ::
  "'e env \<Rightarrow> nat list \<Rightarrow> path \<Rightarrow> event list \<times> 'e outcome" where
  "findMaxFileInDirectory env sched dir =
     (case fs_readdir env dir of
        Inl err \<Rightarrow> ([ReadDir dir], Failed err)
      | Inr filenames \<Rightarrow>
          (case findMaxFile env sched (map (path_join env dir) filenames) of
             (evs, out) \<Rightarrow> (ReadDir dir # evs, out)))"

text \<open>Every read that was issued completes at some point of the run.\<close>

definition all_complete :: "nat \<Rightarrow> nat list \<Rightarrow> bool" where
  "all_complete n sched = list_all (\<lambda>i. i \<in> set sched) [0..<n]"

subsection \<open>The invariant of the asynchronous map\<close>

text \<open>
  \<open>P\<close> is the set of positions whose completion has been processed. The slots are as
  many as the items; a filled slot holds what the operation on its item completed with;
  while nothing is delivered some slot is empty and the slot of every processed position
  is filled; a delivered failure is the failure of some item; delivered results are the
  results of all items, in the order of the items.
\<close>

definition join_inv ::
  "'a list \<Rightarrow> ('a \<Rightarrow> 'e + 'b) \<Rightarrow> nat set \<Rightarrow> ('e, 'b) join_state \<Rightarrow> bool" where
  "join_inv arr func P s =
     (length (slots s) = length arr \<and>
      (\<forall>i c. i < length arr \<longrightarrow> slots s ! i = Some c \<longrightarrow> func (arr ! i) = Inr c) \<and>
      (case delivered s of
         None \<Rightarrow> those (slots s) = None \<and> (\<forall>i\<in>P. i < length arr \<longrightarrow> slots s ! i \<noteq> None)
       | Some (Inl e) \<Rightarrow> \<exists>i<length arr. func (arr ! i) = Inl e
       | Some (Inr rs) \<Rightarrow> map func arr = map Inr rs))"

subsection \<open>A small file system\<close>

text \<open>
  A directory \<^verbatim>\<open>d\<close> with three files: \<^verbatim>\<open>a\<close> has 3 non-empty lines, \<^verbatim>\<open>b\<close> and \<^verbatim>\<open>c\<close> have 5
  each. Nothing else exists.
\<close>

definition text_a :: string where
  "text_a = join_with newline [''1'', ''2'', '''', ''3'']"

definition text_b :: string where
  "text_b = join_with newline [''1'', ''2'', ''3'', ''4'', ''5'', '''']"

definition text_c :: string where
  "text_c = join_with newline ['''', ''v'', ''w'', ''x'', ''y'', ''z'']"

definition example_env :: "string env" where
  "example_env =
     \<lparr>fs_readdir = (\<lambda>dir. if dir = ''d'' then Inr [''a'', ''b'', ''c''] else Inl ''ENOTDIR''),
      fs_readFile = (\<lambda>p.
        if p = ''d/a'' then Inr text_a
        else if p = ''d/b'' then Inr text_b
        else if p = ''d/c'' then Inr text_c
        else Inl ''ENOENT''),
      path_join = (\<lambda>dir filename. dir @ ''/'' @ filename)\<rparr>"

text \<open>
  The same directory at another time: the contents have changed, the numbers of non-empty
  lines have not.
\<close>

definition example_env2 :: "string env" where
  "example_env2 =
     example_env\<lparr>fs_readFile := (\<lambda>p.
        if p = ''d/a'' then Inr (text_a @ [newline])
        else if p = ''d/b'' then Inr text_c
        else if p = ''d/c'' then Inr text_b
        else Inl ''ENOENT'')\<rparr>"

section \<open>Properties\<close>

subsection \<open>Splitting\<close>

lemma split_from_no_sep:
  "sep \<notin> set seg \<Longrightarrow> split_from sep cur seg = [cur @ seg]"
  by (induction seg arbitrary: cur) auto

lemma split_from_upto_sep:
  "sep \<notin> set seg \<Longrightarrow>
   split_from sep cur (seg @ sep # rest) = (cur @ seg) # split_from sep [] rest"
  by (induction seg arbitrary: cur) auto

lemma js_split_join_with:
  "segs \<noteq> [] \<Longrightarrow> list_all (\<lambda>seg. sep \<notin> set seg) segs \<Longrightarrow>
   js_split sep (join_with sep segs) = segs"
proof (induction sep segs rule: join_with.induct)
  case (1 sep)
  then show ?case by simp
next
  case (2 sep seg)
  then show ?case by (simp add: js_split_def split_from_no_sep)
next
  case (3 sep seg v va)
  then show ?case
    using split_from_upto_sep [of sep seg "[]" "join_with sep (v # va)"]
    by (simp add: js_split_def)
qed

lemma split_from_nonempty: "split_from sep cur s \<noteq> []"
  by (induction s arbitrary: cur) auto

lemma split_from_sep_free:
  "sep \<notin> set cur \<Longrightarrow> list_all (\<lambda>seg. sep \<notin> set seg) (split_from sep cur s)"
  by (induction s arbitrary: cur) auto

lemma join_with_Cons:
  "segs \<noteq> [] \<Longrightarrow> join_with sep (seg # segs) = seg @ sep # join_with sep segs"
  by (cases segs) auto

lemma join_with_split_from: "join_with sep (split_from sep cur s) = cur @ s"
  by (induction s arbitrary: cur) (auto simp: join_with_Cons split_from_nonempty)

lemma segments_of_js_split: "segments_of s (js_split newline s)"
  by (simp add: segments_of_def js_split_def split_from_nonempty split_from_sep_free
      join_with_split_from)

lemma segments_of_unique: "segments_of s segs \<Longrightarrow> js_split newline s = segs"
  using js_split_join_with [of segs newline] by (auto simp: segments_of_def)

lemma Boolean_filter: "filter Boolean segs = filter (\<lambda>seg. 0 < length seg) segs"
  by (induction segs) (auto simp: Boolean_def)

lemma split_from_append_sep:
  "split_from sep cur (s @ [sep]) = split_from sep cur s @ [[]]"
  by (induction s arbitrary: cur) auto

subsection \<open>The asynchronous map\<close>

lemma those_eq_Some: "those xs = Some ys \<longleftrightarrow> xs = map Some ys"
  by (induction xs arbitrary: ys) (auto split: option.splits)

lemma those_eq_None: "those xs = None \<longleftrightarrow> None \<in> set xs"
  by (induction xs) (auto split: option.splits)

lemma join_inv_start: "join_inv arr func {} (join_start (length arr))"
  by (auto simp: join_inv_def join_start_def those_eq_None)

lemma join_invI:
  assumes "length (slots s) = length arr"
    and "\<forall>i c. i < length arr \<longrightarrow> slots s ! i = Some c \<longrightarrow> func (arr ! i) = Inr c"
    and "delivered s = None \<Longrightarrow>
           those (slots s) = None \<and> (\<forall>i\<in>P. i < length arr \<longrightarrow> slots s ! i \<noteq> None)"
    and "\<And>e. delivered s = Some (Inl e) \<Longrightarrow> \<exists>i<length arr. func (arr ! i) = Inl e"
    and "\<And>rs. delivered s = Some (Inr rs) \<Longrightarrow> map func arr = map Inr rs"
  shows "join_inv arr func P s"
  unfolding join_inv_def using assms by (simp split: option.split sum.split)

lemma join_inv_idle:
  assumes inv: "join_inv arr func P s"
    and idle: "delivered s \<noteq> None \<or> length arr \<le> i \<or> slots s ! i \<noteq> None"
  shows "join_inv arr func (insert i P) s"
proof (cases "delivered s")
  case None
  with inv idle show ?thesis
    by (auto simp: join_inv_def)
next
  case (Some r)
  with inv show ?thesis
    by (simp add: join_inv_def)
qed

lemma join_inv_complete:
  assumes inv: "join_inv arr func P s"
  shows "join_inv arr func (insert i P) (complete arr func s i)"
proof (cases "delivered s \<noteq> None \<or> length arr \<le> i \<or> slots s ! i \<noteq> None")
  case True
  then have "complete arr func s i = s"
    by (auto simp: complete_def)
  with inv True show ?thesis
    by (simp add: join_inv_idle)
next
  case False
  then have pending: "delivered s = None" and i: "i < length arr" and free: "slots s ! i = None"
    by auto
  from inv have len: "length (slots s) = length arr"
    and filled: "\<forall>j c. j < length arr \<longrightarrow> slots s ! j = Some c \<longrightarrow> func (arr ! j) = Inr c"
    by (simp_all add: join_inv_def)
  from inv pending have compl: "\<forall>j\<in>P. j < length arr \<longrightarrow> slots s ! j \<noteq> None"
    by (simp add: join_inv_def)
  show ?thesis
  proof (cases "func (arr ! i)")
    case (Inl err)
    with pending i free have c: "complete arr func s i = s\<lparr>delivered := Some (Inl err)\<rparr>"
      by (simp add: complete_def)
    show ?thesis
      unfolding c
    proof (rule join_invI)
      show "\<exists>j<length arr. func (arr ! j) = Inl e"
        if "delivered (s\<lparr>delivered := Some (Inl err)\<rparr>) = Some (Inl e)" for e
        using that Inl i by auto
    qed (use len filled in simp_all)
  next
    case (Inr res)
    define fs where "fs = (slots s)[i := Some res]"
    from Inr pending i free
    have c: "complete arr func s i = s\<lparr>slots := fs, delivered := map_option Inr (those fs)\<rparr>"
      by (simp add: complete_def fs_def Let_def)
    have fs_len: "length fs = length arr"
      by (simp add: fs_def len)
    have fs_nth: "fs ! j = (if j = i then Some res else slots s ! j)" if "j < length arr" for j
      using that len by (simp add: fs_def)
    have fs_filled: "\<forall>j c. j < length arr \<longrightarrow> fs ! j = Some c \<longrightarrow> func (arr ! j) = Inr c"
      using Inr filled by (simp add: fs_nth)
    have fs_compl: "\<forall>j\<in>insert i P. j < length arr \<longrightarrow> fs ! j \<noteq> None"
      using compl by (simp add: fs_nth)
    have all: "map func arr = map Inr rs" if "those fs = Some rs" for rs
    proof (rule nth_equalityI)
      from that have fs: "fs = map Some rs"
        by (simp add: those_eq_Some)
      then have rs_len: "length rs = length arr"
        using fs_len by simp
      then show "length (map func arr) = length (map Inr rs)"
        by simp
      fix j assume "j < length (map func arr)"
      then have j: "j < length arr" by simp
      with fs rs_len have "fs ! j = Some (rs ! j)"
        by simp
      with j fs_filled have "func (arr ! j) = Inr (rs ! j)"
        by blast
      with j rs_len show "map func arr ! j = map Inr rs ! j"
        by simp
    qed
    show ?thesis
      unfolding c
    proof (rule join_invI)
      show "map func arr = map Inr rs"
        if "delivered (s\<lparr>slots := fs, delivered := map_option Inr (those fs)\<rparr>) = Some (Inr rs)"
        for rs
        using that all by auto
      show "\<exists>j<length arr. func (arr ! j) = Inl e"
        if "delivered (s\<lparr>slots := fs, delivered := map_option Inr (those fs)\<rparr>) = Some (Inl e)"
        for e
        using that by auto
    qed (use fs_len fs_filled fs_compl in simp_all)
  qed
qed

lemma join_inv_foldl:
  "join_inv arr func P s \<Longrightarrow>
   join_inv arr func (P \<union> set sched) (foldl (complete arr func) s sched)"
proof (induction sched arbitrary: P s)
  case Nil
  then show ?case by simp
next
  case (Cons i sched)
  from Cons.prems have "join_inv arr func (insert i P) (complete arr func s i)"
    by (rule join_inv_complete)
  from Cons.IH [OF this] show ?case by simp
qed

lemma join_inv_run:
  "join_inv arr func (set sched) (foldl (complete arr func) (join_start (length arr)) sched)"
  using join_inv_foldl [OF join_inv_start, of arr func sched] by simp

lemma mapAsync_Inr:
  "mapAsync arr func sched = Some (Inr rs) \<Longrightarrow> map func arr = map Inr rs"
  using join_inv_run [of arr func sched] by (simp add: mapAsync_def join_inv_def)

lemma mapAsync_Inl:
  "mapAsync arr func sched = Some (Inl e) \<Longrightarrow> \<exists>i<length arr. func (arr ! i) = Inl e"
  using join_inv_run [of arr func sched] by (simp add: mapAsync_def join_inv_def)

lemma map_Inr_eq: "map Inr xs = map Inr ys \<longleftrightarrow> xs = ys"
  by (simp add: inj_map_eq_map)

lemma map_Inr_nth:
  assumes "map func arr = map Inr rs" and "i < length arr"
  shows "func (arr ! i) = Inr (rs ! i)"
proof -
  from assms(1) have "length (map func arr) = length (map Inr rs)"
    by simp
  then have len: "length rs = length arr"
    by simp
  from assms(1) have "map func arr ! i = map Inr rs ! i"
    by simp
  with assms(2) len show ?thesis
    by simp
qed

lemma mapAsync_delivers:
  assumes "all_complete (length arr) sched"
  shows "mapAsync arr func sched \<noteq> None"
proof
  assume undelivered: "mapAsync arr func sched = None"
  define s where "s = foldl (complete arr func) (join_start (length arr)) sched"
  have inv: "join_inv arr func (set sched) s"
    unfolding s_def by (rule join_inv_run)
  from undelivered have "delivered s = None"
    by (simp add: mapAsync_def s_def)
  with inv have len: "length (slots s) = length arr" and none: "None \<in> set (slots s)"
    and compl: "\<forall>i\<in>set sched. i < length arr \<longrightarrow> slots s ! i \<noteq> None"
    by (simp_all add: join_inv_def those_eq_None)
  from none obtain i where i: "i < length (slots s)" and free: "slots s ! i = None"
    by (auto simp: in_set_conv_nth)
  from assms i len have "i \<in> set sched"
    by (simp add: all_complete_def list_all_iff)
  with compl i len have "slots s ! i \<noteq> None"
    by simp
  with free show False
    by simp
qed

lemma mapAsync_fails:
  assumes "i < length arr" and "func (arr ! i) = Inl err" and "i \<in> set sched"
  shows "\<exists>e. mapAsync arr func sched = Some (Inl e)"
proof -
  define s where "s = foldl (complete arr func) (join_start (length arr)) sched"
  have inv: "join_inv arr func (set sched) s"
    unfolding s_def by (rule join_inv_run)
  then have filled: "\<forall>j c. j < length arr \<longrightarrow> slots s ! j = Some c \<longrightarrow> func (arr ! j) = Inr c"
    by (simp add: join_inv_def)
  show ?thesis
  proof (cases "delivered s")
    case None
    with inv have "\<forall>j\<in>set sched. j < length arr \<longrightarrow> slots s ! j \<noteq> None"
      by (simp add: join_inv_def)
    with assms(1, 3) obtain c where "slots s ! i = Some c"
      by auto
    with filled assms(1) have "func (arr ! i) = Inr c"
      by blast
    with assms(2) show ?thesis
      by simp
  next
    case (Some r)
    show ?thesis
    proof (cases r)
      case (Inl e)
      with Some show ?thesis
        by (simp add: mapAsync_def s_def)
    next
      case (Inr rs)
      with Some inv have "map func arr = map Inr rs"
        by (simp add: join_inv_def)
      from map_Inr_nth [OF this assms(1)] assms(2) show ?thesis
        by simp
    qed
  qed
qed

lemma mapAsync_all_succeed:
  assumes "map func arr = map Inr rs" and "all_complete (length arr) sched"
  shows "mapAsync arr func sched = Some (Inr rs)"
proof -
  from assms(2) obtain r where r: "mapAsync arr func sched = Some r"
    using mapAsync_delivers [of arr sched func] by auto
  show ?thesis
  proof (cases r)
    case (Inl e)
    with r obtain i where "i < length arr" "func (arr ! i) = Inl e"
      using mapAsync_Inl [of arr func sched e] by auto
    with map_Inr_nth [OF assms(1), of i] show ?thesis
      by simp
  next
    case (Inr rs')
    with r have "map func arr = map Inr rs'"
      using mapAsync_Inr [of arr func sched rs'] by simp
    with assms(1) have "rs' = rs"
      by (simp add: map_Inr_eq)
    with r Inr show ?thesis by simp
  qed
qed

subsection \<open>Index of the maximum\<close>

lemma first_index_less: "v \<in> set xs \<Longrightarrow> first_index v xs < length xs"
  by (induction xs) auto

lemma first_index_nth: "v \<in> set xs \<Longrightarrow> xs ! first_index v xs = v"
  by (induction xs) auto

lemma first_index_least: "j < first_index v xs \<Longrightarrow> xs ! j \<noteq> v"
proof (induction xs arbitrary: j)
  case Nil
  then show ?case by simp
next
  case (Cons x xs)
  then show ?case
    by (cases j) (auto split: if_splits)
qed

lemma indexOfMax_Inr:
  assumes "xs \<noteq> []"
  shows "\<exists>i<length xs. indexOfMax xs = Inr i \<and> xs ! i = Max (set xs)"
proof -
  from assms have "Max (set xs) \<in> set xs"
    by simp
  then have "first_index (Max (set xs)) xs < length xs"
    and "xs ! first_index (Max (set xs)) xs = Max (set xs)"
    by (simp_all add: first_index_less first_index_nth)
  with assms show ?thesis
    by (simp add: indexOfMax_def)
qed

lemma indexOfMax_greatest:
  assumes "indexOfMax xs = Inr i" and "j < length xs"
  shows "xs ! j \<le> xs ! i"
proof -
  from assms(1) have ne: "xs \<noteq> []"
    by (auto simp: indexOfMax_def split: if_splits)
  from indexOfMax_Inr [OF ne] assms(1) have "xs ! i = Max (set xs)"
    by auto
  with assms(2) show ?thesis
    by simp
qed

lemma indexOfMax_first:
  assumes "indexOfMax xs = Inr i" and "j < i"
  shows "xs ! j < xs ! i"
proof -
  from assms(1) have ne: "xs \<noteq> []" and i: "i = first_index (Max (set xs)) xs"
    by (auto simp: indexOfMax_def split: if_splits)
  from indexOfMax_Inr [OF ne] assms(1) have len: "i < length xs" and m: "xs ! i = Max (set xs)"
    by auto
  from assms(2) i have "xs ! j \<noteq> Max (set xs)"
    by (simp add: first_index_least)
  moreover from assms(2) len have "xs ! j \<le> Max (set xs)"
    by simp
  ultimately show ?thesis
    using m by simp
qed

lemma on_loaded_Inr:
  assumes "length results = length filenames" and "filenames \<noteq> []"
  shows "\<exists>i<length filenames.
           indexOfMax (map countNonEmptyLines results) = Inr i \<and>
           on_loaded filenames (Inr results) =
             ([IndexOfMaxCall (map countNonEmptyLines results)], Succeeded (Str (filenames ! i)))"
proof -
  from assms have "map countNonEmptyLines results \<noteq> []"
    by auto
  from indexOfMax_Inr [OF this] obtain i
    where "i < length results" "indexOfMax (map countNonEmptyLines results) = Inr i"
    by auto
  with assms(1) show ?thesis
    by (auto simp: on_loaded_def js_nth_def)
qed

subsection \<open>The runs of \<^verbatim>\<open>findMaxFile\<close>\<close>

lemma findMaxFile_pending:
  assumes "filenames \<noteq> []" and "mapAsync filenames (load env) sched = None"
  shows "findMaxFile env sched filenames =
           (LoadFilesCall filenames # map ReadFile filenames, Pending)"
  using assms by (simp add: findMaxFile_def loadFiles_def)

lemma findMaxFile_failed:
  assumes "filenames \<noteq> []" and "mapAsync filenames (load env) sched = Some (Inl e)"
  shows "findMaxFile env sched filenames =
           (LoadFilesCall filenames # map ReadFile filenames, Failed e)"
  using assms by (simp add: findMaxFile_def loadFiles_def on_loaded_def)

lemma findMaxFile_loaded:
  fixes env :: "'e env"
  assumes "filenames \<noteq> []" and "mapAsync filenames (load env) sched = Some (Inr results)"
  shows "map (fs_readFile env) filenames = map Inr results \<and>
         (\<exists>i<length filenames.
           indexOfMax (map countNonEmptyLines results) = Inr i \<and>
           findMaxFile env sched filenames =
             (LoadFilesCall filenames # map ReadFile filenames @
                [IndexOfMaxCall (map countNonEmptyLines results)],
              Succeeded (Str (filenames ! i))))"
proof -
  from assms(2) have "map (load env) filenames = map Inr results"
    by (rule mapAsync_Inr)
  then have reads: "map (fs_readFile env) filenames = map Inr results"
    by (simp add: load_def [abs_def])
  then have "length (map (fs_readFile env) filenames) = length (map Inr results)"
    by simp
  then have "length results = length filenames"
    by simp
  from on_loaded_Inr [OF this assms(1)] obtain i where i: "i < length filenames"
    and idx: "indexOfMax (map countNonEmptyLines results) = Inr i"
    and cb: "on_loaded filenames (Inr results :: 'e + string list) =
       ([IndexOfMaxCall (map countNonEmptyLines results)], Succeeded (Str (filenames ! i)))"
    by auto
  from assms have "findMaxFile env sched filenames =
      (LoadFilesCall filenames # map ReadFile filenames @
         [IndexOfMaxCall (map countNonEmptyLines results)],
       Succeeded (Str (filenames ! i)))"
    by (simp add: findMaxFile_def loadFiles_def cb)
  with reads i idx show ?thesis
    by blast
qed

text \<open>Every run of \<^verbatim>\<open>findMaxFile\<close> is of one of four kinds.\<close>

lemma findMaxFile_cases [case_names empty pending failed loaded]:
  fixes env :: "'e env"
  obtains
    "filenames = []" "findMaxFile env sched filenames = ([], Succeeded Null)"
  | "filenames \<noteq> []" "\<not> all_complete (length filenames) sched"
    "findMaxFile env sched filenames =
       (LoadFilesCall filenames # map ReadFile filenames, Pending)"
  | e i where "filenames \<noteq> []" "i < length filenames"
    "fs_readFile env (filenames ! i) = Inl e"
    "findMaxFile env sched filenames =
       (LoadFilesCall filenames # map ReadFile filenames, Failed e)"
  | results i where "filenames \<noteq> []" "i < length filenames"
    "map (fs_readFile env) filenames = map Inr results"
    "indexOfMax (map countNonEmptyLines results) = Inr i"
    "findMaxFile env sched filenames =
       (LoadFilesCall filenames # map ReadFile filenames @
          [IndexOfMaxCall (map countNonEmptyLines results)],
        Succeeded (Str (filenames ! i)))"
proof (cases "filenames = []")
  case True
  then show ?thesis
    using that(1) by (simp add: findMaxFile_def)
next
  case ne: False
  show ?thesis
  proof (cases "mapAsync filenames (load env) sched")
    case None
    then have "\<not> all_complete (length filenames) sched"
      using mapAsync_delivers [of filenames sched "load env"] by auto
    with ne None show ?thesis
      using that(2) by (simp add: findMaxFile_pending)
  next
    case (Some r)
    show ?thesis
    proof (cases r)
      case (Inl e)
      with Some obtain i where "i < length filenames" "load env (filenames ! i) = Inl e"
        using mapAsync_Inl [of filenames "load env" sched e] by auto
      with ne Some Inl show ?thesis
        using that(3) [of i e] by (simp add: findMaxFile_failed load_def)
    next
      case (Inr results)
      with ne Some show ?thesis
        using that(4) findMaxFile_loaded [of filenames env sched results] by auto
    qed
  qed
qed

subsection \<open>The small file system\<close>

lemma example_reads:
  "map (fs_readFile example_env) [''d/a'', ''d/b'', ''d/c''] = map Inr [text_a, text_b, text_c]"
  by (simp add: example_env_def)

lemma example_counts: "map countNonEmptyLines [text_a, text_b, text_c] = [3, 5, 5]"
  by (simp add: countNonEmptyLines_def js_split_def text_a_def text_b_def text_c_def
      newline_def Boolean_def)

lemma example_run:
  "findMaxFile example_env [2, 0, 1] [''d/a'', ''d/b'', ''d/c''] =
     ([LoadFilesCall [''d/a'', ''d/b'', ''d/c''], ReadFile ''d/a'', ReadFile ''d/b'',
       ReadFile ''d/c'', IndexOfMaxCall [3, 5, 5]],
      Succeeded (Str ''d/b''))"
proof -
  have "mapAsync [''d/a'', ''d/b'', ''d/c''] (load example_env) [2, 0, 1] =
      Some (Inr [text_a, text_b, text_c])"
    by (simp add: mapAsync_def complete_def join_start_def load_def example_env_def
        numeral_3_eq_3)
  then show ?thesis
    using example_counts
    by (simp add: findMaxFile_def loadFiles_def on_loaded_def indexOfMax_def js_nth_def)
qed

section \<open>The claims\<close>

text \<open>
  C5. On the empty sequence of file names \<^verbatim>\<open>findMaxFile\<close> calls its callback with
  \<^verbatim>\<open>(null, null)\<close> at once: the run has no effect at all, so no file is read and neither
  \<^verbatim>\<open>loadFiles\<close> nor \<^verbatim>\<open>indexOfMax\<close> is called.
\<close>

theorem findMaxFile_empty_input: "findMaxFile env sched [] = ([], Succeeded Null)"
  by (simp add: findMaxFile_def)

text \<open>
  C1. When the sequence of file names is not empty, every read succeeds and every read
  completes, in whatever order, \<^verbatim>\<open>findMaxFile\<close> succeeds with \<^verbatim>\<open>filenames[i]\<close>, the file name
  given at position \<open>i\<close>, where \<open>i\<close> is what \<^verbatim>\<open>indexOfMax\<close> returns on the line counts of the
  contents taken in the order of the file names. For three files with 3, 5 and 5
  non-empty lines the result is the second file.
\<close>

theorem findMaxFile_selects_indexOfMax:
  assumes "filenames \<noteq> []"
    and "map (fs_readFile env) filenames = map Inr contents"
    and "all_complete (length filenames) sched"
  shows "\<exists>i<length filenames.
           indexOfMax (map countNonEmptyLines contents) = Inr i \<and>
           snd (findMaxFile env sched filenames) = Succeeded (Str (filenames ! i)) \<and>
           (\<forall>A B C. filenames = [A, B, C] \<and> map countNonEmptyLines contents = [3, 5, 5] \<longrightarrow>
              snd (findMaxFile env sched filenames) = Succeeded (Str B))"
proof -
  from assms(2) have "map (load env) filenames = map Inr contents"
    by (simp add: load_def [abs_def])
  with assms(3) have "mapAsync filenames (load env) sched = Some (Inr contents)"
    by (simp add: mapAsync_all_succeed)
  from findMaxFile_loaded [OF assms(1) this] obtain i where i: "i < length filenames"
    and idx: "indexOfMax (map countNonEmptyLines contents) = Inr i"
    and run: "snd (findMaxFile env sched filenames) = Succeeded (Str (filenames ! i))"
    by auto
  have "snd (findMaxFile env sched filenames) = Succeeded (Str B)"
    if "filenames = [A, B, C]" "map countNonEmptyLines contents = [3, 5, 5]" for A B C
  proof -
    from idx that(2) have "i = 1"
      by (simp add: indexOfMax_def)
    with run that(1) show ?thesis
      by simp
  qed
  with i idx run show ?thesis
    by blast
qed

theorem findMaxFile_selects_indexOfMax_witness:
  "snd (findMaxFile example_env [2, 0, 1] [''d/a'', ''d/b'', ''d/c'']) = Succeeded (Str ''d/b'')"
proof -
  have ne: "[''d/a'', ''d/b'', ''d/c''] \<noteq> []"
    by simp
  have fair: "all_complete (length [''d/a'', ''d/b'', ''d/c'']) [2, 0, 1]"
    by (simp add: all_complete_def upt_rec)
  from findMaxFile_selects_indexOfMax [OF ne example_reads fair] obtain i
    where "\<forall>A B C. [''d/a'', ''d/b'', ''d/c''] = [A, B, C] \<and>
      map countNonEmptyLines [text_a, text_b, text_c] = [3, 5, 5] \<longrightarrow>
      snd (findMaxFile example_env [2, 0, 1] [''d/a'', ''d/b'', ''d/c'']) = Succeeded (Str B)"
    by auto
  then have "map countNonEmptyLines [text_a, text_b, text_c] = [3, 5, 5] \<longrightarrow>
      snd (findMaxFile example_env [2, 0, 1] [''d/a'', ''d/b'', ''d/c'']) = Succeeded (Str ''d/b'')"
    by simp
  with example_counts show ?thesis
    by (rule rev_mp)
qed

text \<open>
  C3. When every read succeeds and every read completes, \<^verbatim>\<open>loadFiles\<close> delivers the
  contents of the files in the order of the file names, one per file name, and the
  delivery is the same for every order in which the reads complete.
\<close>

theorem loadFiles_preserves_order:
  assumes "map (fs_readFile env) filenames = map Inr contents"
    and "all_complete (length filenames) sched"
  shows "snd (loadFiles env sched filenames) = Some (Inr contents) \<and>
         length contents = length filenames \<and>
         (\<forall>i<length filenames. fs_readFile env (filenames ! i) = Inr (contents ! i)) \<and>
         (\<forall>sched'. all_complete (length filenames) sched' \<longrightarrow>
            snd (loadFiles env sched' filenames) = snd (loadFiles env sched filenames))"
proof -
  from assms(1) have reads: "map (load env) filenames = map Inr contents"
    by (simp add: load_def [abs_def])
  have run: "snd (loadFiles env sched' filenames) = Some (Inr contents)"
    if "all_complete (length filenames) sched'" for sched'
    using reads that by (simp add: loadFiles_def mapAsync_all_succeed)
  from assms(1) have "length (map (fs_readFile env) filenames) = length (map Inr contents)"
    by simp
  then have len: "length contents = length filenames"
    by simp
  have nth: "fs_readFile env (filenames ! i) = Inr (contents ! i)" if "i < length filenames" for i
    using assms(1) that by (rule map_Inr_nth)
  from run assms(2) len nth show ?thesis
    by simp
qed

theorem loadFiles_preserves_order_witness:
  "snd (loadFiles example_env [2, 0, 1] [''d/a'', ''d/b'', ''d/c'']) =
     Some (Inr [text_a, text_b, text_c]) \<and>
   snd (loadFiles example_env [0, 1, 2] [''d/a'', ''d/b'', ''d/c'']) =
     snd (loadFiles example_env [2, 0, 1] [''d/a'', ''d/b'', ''d/c''])"
proof -
  have fair: "all_complete (length [''d/a'', ''d/b'', ''d/c'']) [2, 0, 1]"
    by (simp add: all_complete_def upt_rec)
  have fair': "all_complete (length [''d/a'', ''d/b'', ''d/c'']) [0, 1, 2]"
    by (simp add: all_complete_def upt_rec)
  from loadFiles_preserves_order [OF example_reads fair] fair' show ?thesis
    by simp
qed

text \<open>
  C2. \<^verbatim>\<open>countNonEmptyLines\<close> returns the number of segments of length greater than zero
  that the text consists of when it is cut at its newline characters. Every text has such
  segments, and nothing but the newline is removed: a segment that is a single carriage
  return counts. The counts of the five sample texts are 0, 0, 2, 2 and 2.
\<close>

theorem countNonEmptyLines_counts_segments:
  "(\<exists>segs. segments_of s segs) \<and>
   (\<forall>segs. segments_of s segs \<longrightarrow>
      countNonEmptyLines s = length (filter (\<lambda>seg. 0 < length seg) segs)) \<and>
   countNonEmptyLines [carriage_return] = 1 \<and>
   countNonEmptyLines (''a'' @ [newline, carriage_return, newline] @ ''b'') = 3 \<and>
   countNonEmptyLines [] = 0 \<and>
   countNonEmptyLines [newline] = 0 \<and>
   countNonEmptyLines (''a'' @ [newline] @ ''b'') = 2 \<and>
   countNonEmptyLines (''a'' @ [newline, newline] @ ''b'') = 2 \<and>
   countNonEmptyLines (''a'' @ [newline] @ ''b'' @ [newline]) = 2"
proof -
  have "\<exists>segs. segments_of s segs"
    using segments_of_js_split by blast
  moreover have "countNonEmptyLines s = length (filter (\<lambda>seg. 0 < length seg) segs)"
    if "segments_of s segs" for segs
    using segments_of_unique [OF that]
    by (simp add: countNonEmptyLines_def Boolean_filter)
  moreover have "countNonEmptyLines [carriage_return] = 1"
    and "countNonEmptyLines (''a'' @ [newline, carriage_return, newline] @ ''b'') = 3"
    and "countNonEmptyLines [] = 0"
    and "countNonEmptyLines [newline] = 0"
    and "countNonEmptyLines (''a'' @ [newline] @ ''b'') = 2"
    and "countNonEmptyLines (''a'' @ [newline, newline] @ ''b'') = 2"
    and "countNonEmptyLines (''a'' @ [newline] @ ''b'' @ [newline]) = 2"
    by (simp_all add: countNonEmptyLines_def js_split_def Boolean_def newline_def
        carriage_return_def)
  ultimately show ?thesis
    by blast
qed

theorem countNonEmptyLines_counts_segments_witness:
  "segments_of (''a'' @ [newline, newline] @ ''b'') [''a'', '''', ''b''] \<and>
   countNonEmptyLines (''a'' @ [newline, newline] @ ''b'') =
     length (filter (\<lambda>seg. 0 < length seg) [''a'', '''', ''b''])"
proof -
  have segs: "segments_of (''a'' @ [newline, newline] @ ''b'') [''a'', '''', ''b'']"
    by (simp add: segments_of_def newline_def)
  from countNonEmptyLines_counts_segments [of "''a'' @ [newline, newline] @ ''b''"]
  have "segments_of (''a'' @ [newline, newline] @ ''b'') [''a'', '''', ''b''] \<longrightarrow>
    countNonEmptyLines (''a'' @ [newline, newline] @ ''b'') =
      length (filter (\<lambda>seg. 0 < length seg) [''a'', '''', ''b''])"
    by blast
  with segs show ?thesis
    by simp
qed

text \<open>
  C9. A newline appended to a text does not change its count of non-empty lines:
  \<^verbatim>\<open>countNonEmptyLines(s + '\n')\<close> is \<^verbatim>\<open>countNonEmptyLines(s)\<close>.
\<close>

theorem countNonEmptyLines_trailing_newline:
  "countNonEmptyLines (s @ [newline]) = countNonEmptyLines s"
  by (simp add: countNonEmptyLines_def js_split_def split_from_append_sep Boolean_def)

text \<open>
  C6. On a non-empty sequence \<^verbatim>\<open>indexOfMax\<close> returns a position \<open>i\<close> of the sequence whose
  element is at least every element, and \<open>i\<close> is the smallest position with that property;
  on \<^verbatim>\<open>[3, 1, 3, 2]\<close> it returns 0.
\<close>

theorem indexOfMax_first_greatest:
  fixes xs :: "'a::linorder list"
  assumes "xs \<noteq> []"
  shows "\<exists>i<length xs.
           indexOfMax xs = Inr i \<and>
           (\<forall>j<length xs. xs ! j \<le> xs ! i) \<and>
           (\<forall>j<length xs. (\<forall>k<length xs. xs ! k \<le> xs ! j) \<longrightarrow> i \<le> j) \<and>
           indexOfMax [3, 1, 3, 2 :: nat] = Inr 0"
proof -
  from indexOfMax_Inr [OF assms] obtain i where i: "i < length xs"
    and idx: "indexOfMax xs = Inr i"
    by auto
  have greatest: "xs ! j \<le> xs ! i" if "j < length xs" for j
    using idx that by (rule indexOfMax_greatest)
  have first: "i \<le> j" if "j < length xs" "\<forall>k<length xs. xs ! k \<le> xs ! j" for j
  proof (rule ccontr)
    assume "\<not> i \<le> j"
    then have "j < i"
      by simp
    with idx have "xs ! j < xs ! i"
      by (rule indexOfMax_first)
    moreover from that(2) i have "xs ! i \<le> xs ! j"
      by simp
    ultimately show False
      by simp
  qed
  have "indexOfMax [3, 1, 3, 2 :: nat] = Inr 0"
    by (simp add: indexOfMax_def)
  with i idx greatest first show ?thesis
    by blast
qed

theorem indexOfMax_first_greatest_witness:
  "indexOfMax [2, 7, 1, 7 :: nat] = Inr 1"
proof -
  have "[2, 7, 1, 7 :: nat] \<noteq> []"
    by simp
  from indexOfMax_first_greatest [OF this] obtain i where "i < length [2, 7, 1, 7 :: nat]"
    and idx: "indexOfMax [2, 7, 1, 7 :: nat] = Inr i"
    and greatest: "\<forall>j<length [2, 7, 1, 7 :: nat]. [2, 7, 1, 7 :: nat] ! j \<le> [2, 7, 1, 7] ! i"
    and first: "\<forall>j<length [2, 7, 1, 7 :: nat].
      (\<forall>k<length [2, 7, 1, 7 :: nat]. [2, 7, 1, 7 :: nat] ! k \<le> [2, 7, 1, 7] ! j) \<longrightarrow> i \<le> j"
    by blast
  have one: "1 < length [2, 7, 1, 7 :: nat]"
    by simp
  have "\<forall>k<length [2, 7, 1, 7 :: nat]. [2, 7, 1, 7 :: nat] ! k \<le> [2, 7, 1, 7] ! 1"
    by (simp add: less_Suc_eq)
  with first one have "i \<le> 1"
    by blast
  then have "i = 0 \<or> i = 1"
    by auto
  moreover from greatest [rule_format, of 1] have "7 \<le> [2, 7, 1, 7 :: nat] ! i"
    by simp
  ultimately have "i = 1"
    by auto
  with idx show ?thesis
    by simp
qed

subsection \<open>Calls of \<^verbatim>\<open>indexOfMax\<close>\<close>

lemma findMaxFile_calls:
  fixes env :: "'e env"
  assumes "IndexOfMaxCall counts \<in> set (fst (findMaxFile env sched filenames))"
  shows "counts \<noteq> []"
proof (cases env sched filenames rule: findMaxFile_cases)
  case empty
  with assms show ?thesis by simp
next
  case pending
  with assms show ?thesis by auto
next
  case (failed e i)
  with assms show ?thesis by auto
next
  case (loaded results i)
  from loaded(3) have "length (map (fs_readFile env) filenames) = length (map Inr results)"
    by simp
  with loaded(1) have "results \<noteq> []"
    by auto
  moreover from assms loaded(5) have "counts = map countNonEmptyLines results"
    by auto
  ultimately show ?thesis
    by simp
qed

text \<open>
  C7. \<^verbatim>\<open>indexOfMax\<close> on the empty sequence fails and returns no index, and no run of
  \<^verbatim>\<open>findMaxFile\<close> or \<^verbatim>\<open>findMaxFileInDirectory\<close> calls it on an empty sequence.
\<close>

theorem indexOfMax_never_on_empty:
  fixes env :: "'e env"
  shows "indexOfMax ([] :: 'a::linorder list) = Inl EmptySequence \<and>
         (IndexOfMaxCall counts \<in> set (fst (findMaxFile env sched filenames)) \<longrightarrow>
            counts \<noteq> []) \<and>
         (IndexOfMaxCall counts \<in> set (fst (findMaxFileInDirectory env sched dir)) \<longrightarrow>
            counts \<noteq> [])"
proof -
  have "indexOfMax ([] :: 'a list) = Inl EmptySequence"
    by (simp add: indexOfMax_def)
  moreover have "counts \<noteq> []"
    if "IndexOfMaxCall counts \<in> set (fst (findMaxFileInDirectory env sched dir))"
  proof (cases "fs_readdir env dir")
    case (Inl err)
    with that show ?thesis
      by (simp add: findMaxFileInDirectory_def)
  next
    case (Inr filenames)
    with that
    have "IndexOfMaxCall counts \<in>
        set (fst (findMaxFile env sched (map (path_join env dir) filenames)))"
      by (simp add: findMaxFileInDirectory_def split: prod.splits)
    then show ?thesis
      by (rule findMaxFile_calls)
  qed
  ultimately show ?thesis
    using findMaxFile_calls [of counts env sched filenames] by blast
qed

theorem indexOfMax_never_on_empty_witness:
  "IndexOfMaxCall [3, 5, 5] \<in>
     set (fst (findMaxFile example_env [2, 0, 1] [''d/a'', ''d/b'', ''d/c''])) \<and>
   [3, 5, 5 :: nat] \<noteq> []"
proof -
  have "IndexOfMaxCall [3, 5, 5] \<in>
      set (fst (findMaxFile example_env [2, 0, 1] [''d/a'', ''d/b'', ''d/c'']))"
    unfolding example_run by simp
  with indexOfMax_never_on_empty [of "[3, 5, 5]" example_env "[2, 0, 1]"
      "[''d/a'', ''d/b'', ''d/c'']"]
  show ?thesis
    by blast
qed

text \<open>
  C8. A value other than \<^verbatim>\<open>null\<close> that \<^verbatim>\<open>findMaxFile\<close> succeeds with is one of the file
  names it was given: the index it reads \<^verbatim>\<open>filenames\<close> at is in range. The same holds of
  its callback alone whenever the results it receives are as many as the file names.
\<close>

theorem findMaxFile_result_in_input:
  fixes env :: "'e env"
  shows "(snd (findMaxFile env sched filenames) = Succeeded v \<and> v \<noteq> Null \<longrightarrow>
            (\<exists>i<length filenames. v = Str (filenames ! i))) \<and>
         (length results = length filenames \<and>
          snd (on_loaded filenames (Inr results :: 'e + string list)) = Succeeded v \<longrightarrow>
            (\<exists>i<length filenames. v = Str (filenames ! i)))"
proof -
  have "\<exists>i<length filenames. v = Str (filenames ! i)"
    if "snd (findMaxFile env sched filenames) = Succeeded v" "v \<noteq> Null"
    using that by (cases env sched filenames rule: findMaxFile_cases) auto
  moreover have "\<exists>i<length filenames. v = Str (filenames ! i)"
    if len: "length results = length filenames"
      and cb: "snd (on_loaded filenames (Inr results :: 'e + string list)) = Succeeded v"
  proof (cases "filenames = []")
    case True
    with len cb show ?thesis
      by (simp add: on_loaded_def indexOfMax_def)
  next
    case False
    from on_loaded_Inr [OF len False] obtain i where "i < length filenames"
      "on_loaded filenames (Inr results :: 'e + string list) =
         ([IndexOfMaxCall (map countNonEmptyLines results)], Succeeded (Str (filenames ! i)))"
      by auto
    with cb show ?thesis
      by auto
  qed
  ultimately show ?thesis
    by blast
qed

theorem findMaxFile_result_in_input_witness:
  "snd (findMaxFile example_env [2, 0, 1] [''d/a'', ''d/b'', ''d/c'']) = Succeeded (Str ''d/b'') \<and>
   Str ''d/b'' \<noteq> Null \<and>
   (\<exists>i<length [''d/a'', ''d/b'', ''d/c'']. Str ''d/b'' = Str ([''d/a'', ''d/b'', ''d/c''] ! i))"
proof -
  have run: "snd (findMaxFile example_env [2, 0, 1] [''d/a'', ''d/b'', ''d/c'']) =
      Succeeded (Str ''d/b'')"
    unfolding example_run by simp
  with findMaxFile_result_in_input [of example_env "[2, 0, 1]" "[''d/a'', ''d/b'', ''d/c'']"
      "Str ''d/b''"]
  show ?thesis
    by blast
qed

text \<open>
  C10. What \<^verbatim>\<open>findMaxFile\<close> succeeds with depends only on the file names and on the number
  of non-empty lines of the content read for each of them: two successful runs on the
  same file names, whatever the file systems and the completion orders, succeed with the
  same value as soon as the contents read at every position have the same count.
\<close>

theorem findMaxFile_depends_on_counts:
  fixes env :: "'e env" and env' :: "'f env"
  assumes "snd (findMaxFile env sched filenames) = Succeeded v"
    and "snd (findMaxFile env' sched' filenames) = Succeeded v'"
    and "\<forall>i<length filenames. \<forall>c c'.
           fs_readFile env (filenames ! i) = Inr c \<and> fs_readFile env' (filenames ! i) = Inr c' \<longrightarrow>
           countNonEmptyLines c = countNonEmptyLines c'"
  shows "v = v'"
proof (cases env sched filenames rule: findMaxFile_cases)
  case empty
  with assms(1, 2) show ?thesis
    by (simp add: findMaxFile_def)
next
  case pending
  with assms(1) show ?thesis by simp
next
  case (failed e i)
  with assms(1) show ?thesis by simp
next
  case run: (loaded results i)
  show ?thesis
  proof (cases env' sched' filenames rule: findMaxFile_cases)
    case empty
    with run(1) show ?thesis by simp
  next
    case pending
    with assms(2) show ?thesis by simp
  next
    case (failed e j)
    with assms(2) show ?thesis by simp
  next
    case run': (loaded results' i')
    from run(3) have "length (map (fs_readFile env) filenames) = length (map Inr results)"
      by simp
    then have len: "length results = length filenames"
      by simp
    from run'(3) have "length (map (fs_readFile env') filenames) = length (map Inr results')"
      by simp
    then have len': "length results' = length filenames"
      by simp
    have "map countNonEmptyLines results = map countNonEmptyLines results'"
    proof (rule nth_equalityI)
      show "length (map countNonEmptyLines results) = length (map countNonEmptyLines results')"
        by (simp add: len len')
      fix k assume "k < length (map countNonEmptyLines results)"
      then have k: "k < length filenames"
        by (simp add: len)
      from run(3) k have "fs_readFile env (filenames ! k) = Inr (results ! k)"
        by (rule map_Inr_nth)
      moreover from run'(3) k have "fs_readFile env' (filenames ! k) = Inr (results' ! k)"
        by (rule map_Inr_nth)
      ultimately have "countNonEmptyLines (results ! k) = countNonEmptyLines (results' ! k)"
        using assms(3) k by blast
      with k show "map countNonEmptyLines results ! k = map countNonEmptyLines results' ! k"
        by (simp add: len len')
    qed
    with run(4) run'(4) have "i = i'"
      by simp
    with assms(1, 2) run(5) run'(5) show ?thesis
      by simp
  qed
qed

theorem findMaxFile_depends_on_counts_witness:
  "snd (findMaxFile example_env [2, 0, 1] [''d/a'', ''d/b'', ''d/c'']) = Succeeded (Str ''d/b'') \<and>
   snd (findMaxFile example_env2 [0, 1, 2] [''d/a'', ''d/b'', ''d/c'']) = Succeeded (Str ''d/b'')"
proof -
  have run: "snd (findMaxFile example_env [2, 0, 1] [''d/a'', ''d/b'', ''d/c'']) =
      Succeeded (Str ''d/b'')"
    unfolding example_run by simp
  have "mapAsync [''d/a'', ''d/b'', ''d/c''] (load example_env2) [0, 1, 2] =
      Some (Inr [text_a @ [newline], text_c, text_b])"
    by (simp add: mapAsync_def complete_def join_start_def load_def example_env2_def
        numeral_3_eq_3)
  from findMaxFile_loaded [OF _ this] obtain i
    where run2: "snd (findMaxFile example_env2 [0, 1, 2] [''d/a'', ''d/b'', ''d/c'']) =
      Succeeded (Str ([''d/a'', ''d/b'', ''d/c''] ! i))"
    by auto
  have counts: "\<forall>i<length [''d/a'', ''d/b'', ''d/c'']. \<forall>c c'.
      fs_readFile example_env ([''d/a'', ''d/b'', ''d/c''] ! i) = Inr c \<and>
      fs_readFile example_env2 ([''d/a'', ''d/b'', ''d/c''] ! i) = Inr c' \<longrightarrow>
      countNonEmptyLines c = countNonEmptyLines c'"
    by (simp add: less_Suc_eq example_env_def example_env2_def countNonEmptyLines_def
        js_split_def text_a_def text_b_def text_c_def newline_def Boolean_def)
  from findMaxFile_depends_on_counts [OF run run2 counts] run run2 show ?thesis
    by simp
qed

subsection \<open>Failing reads\<close>

lemma findMaxFile_read_fails:
  fixes env :: "'e env"
  assumes "i < length filenames" and "fs_readFile env (filenames ! i) = Inl err"
    and "i \<in> set sched"
  shows "\<exists>e. findMaxFile env sched filenames =
           (LoadFilesCall filenames # map ReadFile filenames, Failed e)"
proof -
  from assms(2) have "load env (filenames ! i) = Inl err"
    by (simp add: load_def)
  with assms(1, 3) obtain e
    where e: "mapAsync filenames (load env) sched = Some (Inl e)"
    using mapAsync_fails [of i filenames "load env" err sched] by auto
  from assms(1) have "filenames \<noteq> []"
    by auto
  from findMaxFile_failed [OF this e] show ?thesis
    by auto
qed

text \<open>
  C4. A failure reaches the callback as it is, and then nothing else does. When listing the
  directory fails, \<^verbatim>\<open>findMaxFileInDirectory\<close> calls back with that failure after having done
  nothing but the listing: no file is read. When the listing succeeds, the run ends as the
  run of \<^verbatim>\<open>findMaxFile\<close> on the joined paths does. When the read of some file fails,
  \<^verbatim>\<open>findMaxFile\<close> never succeeds and never calls \<^verbatim>\<open>indexOfMax\<close>; once the failed read has
  completed, whether or not the others have, the callback is called with the failure of a
  read, the one of the failed read when no other read fails. A failure \<^verbatim>\<open>findMaxFile\<close>
  calls back with is always the failure of a read of one of its files.
\<close>

theorem failures_propagate:
  fixes env :: "'e env"
  shows "(fs_readdir env dir = Inl err \<longrightarrow>
            findMaxFileInDirectory env sched dir = ([ReadDir dir], Failed err)) \<and>
         (fs_readdir env dir = Inr names \<longrightarrow>
            snd (findMaxFileInDirectory env sched dir) =
              snd (findMaxFile env sched (map (path_join env dir) names))) \<and>
         (i < length filenames \<and> fs_readFile env (filenames ! i) = Inl err' \<longrightarrow>
            (\<forall>v. snd (findMaxFile env sched filenames) \<noteq> Succeeded v) \<and>
            (\<forall>counts. IndexOfMaxCall counts \<notin> set (fst (findMaxFile env sched filenames))) \<and>
            (i \<in> set sched \<longrightarrow>
               (\<exists>j<length filenames. \<exists>e.
                  fs_readFile env (filenames ! j) = Inl e \<and>
                  snd (findMaxFile env sched filenames) = Failed e \<and>
                  ((\<forall>k<length filenames. k \<noteq> i \<longrightarrow>
                      (\<exists>c. fs_readFile env (filenames ! k) = Inr c)) \<longrightarrow> e = err')))) \<and>
         (snd (findMaxFile env sched filenames) = Failed e' \<longrightarrow>
            (\<exists>j<length filenames. fs_readFile env (filenames ! j) = Inl e'))"
proof -
  have listing: "findMaxFileInDirectory env sched dir = ([ReadDir dir], Failed err)"
    if "fs_readdir env dir = Inl err"
    using that by (simp add: findMaxFileInDirectory_def)
  have delegate: "snd (findMaxFileInDirectory env sched dir) =
      snd (findMaxFile env sched (map (path_join env dir) names))"
    if "fs_readdir env dir = Inr names"
    using that by (simp add: findMaxFileInDirectory_def split: prod.splits)
  have verbatim: "\<exists>j<length filenames. fs_readFile env (filenames ! j) = Inl e'"
    if "snd (findMaxFile env sched filenames) = Failed e'"
    using that by (cases env sched filenames rule: findMaxFile_cases) auto
  have reading: "(\<forall>v. snd (findMaxFile env sched filenames) \<noteq> Succeeded v) \<and>
      (\<forall>counts. IndexOfMaxCall counts \<notin> set (fst (findMaxFile env sched filenames))) \<and>
      (i \<in> set sched \<longrightarrow>
         (\<exists>j<length filenames. \<exists>e.
            fs_readFile env (filenames ! j) = Inl e \<and>
            snd (findMaxFile env sched filenames) = Failed e \<and>
            ((\<forall>k<length filenames. k \<noteq> i \<longrightarrow>
                (\<exists>c. fs_readFile env (filenames ! k) = Inr c)) \<longrightarrow> e = err')))"
    if i: "i < length filenames" and fails: "fs_readFile env (filenames ! i) = Inl err'"
  proof (cases env sched filenames rule: findMaxFile_cases)
    case empty
    with i show ?thesis by simp
  next
    case pending
    have "i \<notin> set sched"
    proof
      assume "i \<in> set sched"
      from findMaxFile_read_fails [OF i fails this] pending(3) show False
        by simp
    qed
    with pending show ?thesis by auto
  next
    case (failed e j)
    have "e = err'" if "\<forall>k<length filenames. k \<noteq> i \<longrightarrow>
        (\<exists>c. fs_readFile env (filenames ! k) = Inr c)"
    proof (cases "j = i")
      case True
      with failed(3) fails show ?thesis by simp
    next
      case False
      with that failed(2, 3) show ?thesis by auto
    qed
    with failed show ?thesis
      by auto
  next
    case (loaded results j)
    from loaded(3) i have "fs_readFile env (filenames ! i) = Inr (results ! i)"
      by (rule map_Inr_nth)
    with fails show ?thesis by simp
  qed
  from listing delegate verbatim reading show ?thesis
    by blast
qed

theorem failures_propagate_witness:
  "findMaxFileInDirectory example_env [2, 1] ''e'' = ([ReadDir ''e''], Failed ''ENOTDIR'') \<and>
   snd (findMaxFile example_env [2, 1] [''d/a'', ''d/gone'', ''d/c'']) = Failed ''ENOENT''"
proof -
  have listing: "fs_readdir example_env ''e'' = Inl ''ENOTDIR''"
    by (simp add: example_env_def)
  have i: "1 < length [''d/a'', ''d/gone'', ''d/c'']"
    by simp
  have fails: "fs_readFile example_env ([''d/a'', ''d/gone'', ''d/c''] ! 1) = Inl ''ENOENT''"
    by (simp add: example_env_def)
  have completes: "1 \<in> set [2, 1 :: nat]"
    by simp
  have others: "\<forall>k<length [''d/a'', ''d/gone'', ''d/c'']. k \<noteq> 1 \<longrightarrow>
      (\<exists>c. fs_readFile example_env ([''d/a'', ''d/gone'', ''d/c''] ! k) = Inr c)"
    by (simp add: less_Suc_eq example_env_def)
  from failures_propagate [of example_env "''e''" "''ENOTDIR''" "[2, 1]" _ 1
      "[''d/a'', ''d/gone'', ''d/c'']" "''ENOENT''"]
    listing i fails completes others
  show ?thesis
    by blast
qed

end
